theory Spec2Isabelle
  imports Complex_Main
begin

section \<open>Strings as Python sees them\<close>

text \<open>
  Python strings are sequences of code points. The model uses \<^typ>\<open>string\<close>, read as the
  code points U+0000..U+00FF, with the character classes that \<^verbatim>\<open>str.strip\<close>,
  \<^verbatim>\<open>str.lower\<close> and the \<^verbatim>\<open>re\<close> module use on that range.
  \<^verbatim>\<open>int()\<close> is taken without its optional limit on the number of digits.
\<close>

definition is_space :: "char \<Rightarrow> bool" where
  \<comment> \<open>\<^verbatim>\<open>str.isspace\<close> on one character, which is also the class \<^verbatim>\<open>\s\<close>\<close>
  "is_space c = (let n = (of_char c :: nat) in
     (9 \<le> n \<and> n \<le> 13) \<or> (28 \<le> n \<and> n \<le> 32) \<or> n = 133 \<or> n = 160)"

definition is_digit :: "char \<Rightarrow> bool" where
  \<comment> \<open>the class \<^verbatim>\<open>\d\<close>\<close>
  "is_digit c = (let n = (of_char c :: nat) in 48 \<le> n \<and> n \<le> 57)"

definition is_ascii_letter :: "char \<Rightarrow> bool" where
  \<comment> \<open>the class \<^verbatim>\<open>[A-Z]\<close> under \<^verbatim>\<open>re.IGNORECASE\<close>, which is \<^verbatim>\<open>[A-Za-z]\<close>\<close>
  "is_ascii_letter c = (let n = (of_char c :: nat) in
     (65 \<le> n \<and> n \<le> 90) \<or> (97 \<le> n \<and> n \<le> 122))"

definition is_upper :: "char \<Rightarrow> bool" where
  "is_upper c = (let n = (of_char c :: nat) in
     (65 \<le> n \<and> n \<le> 90) \<or> (192 \<le> n \<and> n \<le> 222 \<and> n \<noteq> 215))"

definition lower_chr :: "char \<Rightarrow> char" where
  \<comment> \<open>an upper-case letter and its lower-case form differ by 32, which is bit 5\<close>
  "lower_chr c = (if is_upper c
     then (case c of Char b0 b1 b2 b3 b4 b5 b6 b7 \<Rightarrow> Char b0 b1 b2 b3 b4 True b6 b7)
     else c)"

definition lower :: "string \<Rightarrow> string" where
  "lower s = map lower_chr s"

definition strip :: "string \<Rightarrow> string" where
  "strip s = rev (dropWhile is_space (rev (dropWhile is_space s)))"

definition rstrip_chr :: "char \<Rightarrow> string \<Rightarrow> string" where
  "rstrip_chr x s = rev (dropWhile (\<lambda>c. c = x) (rev s))"

definition startswith :: "string \<Rightarrow> string \<Rightarrow> bool" where
  "startswith s p = (take (length p) s = p)"

definition replace_chr :: "char \<Rightarrow> char \<Rightarrow> string \<Rightarrow> string" where
  "replace_chr a b s = map (\<lambda>c. if c = a then b else c) s"

definition int_of_digits :: "string \<Rightarrow> nat" where
  \<comment> \<open>\<^verbatim>\<open>int(s)\<close> on a string of decimal digits\<close>
  "int_of_digits ds = foldl (\<lambda>a c. 10 * a + (of_char c - 48)) 0 ds"

definition truthy_str :: "string option \<Rightarrow> bool" where
  \<comment> \<open>the truth value of an optional string: neither \<^verbatim>\<open>None\<close> nor empty\<close>
  "truthy_str x = (case x of None \<Rightarrow> False | Some s \<Rightarrow> s \<noteq> [])"

section \<open>Regular expressions\<close>

text \<open>
  The patterns of the parser are sequences of single characters of a class, greedy and
  reluctant repetitions of a class, capture groups, one optional non-capturing group and
  the end anchor. \<open>rmatch\<close> is the backtracking matcher of \<^verbatim>\<open>re.match\<close> on such
  a sequence: it is anchored at the start, a greedy repetition tries the longest run first,
  a reluctant one the shortest, and the first way to match the whole sequence wins.
\<close>

datatype greed = Greedy | Reluctant

datatype item =
    Chr "char \<Rightarrow> bool"
  | Star greed "char \<Rightarrow> bool"
  | Opt "char \<Rightarrow> bool"
  | Open nat
  | Close nat
  | OptSeq "item list"
  | Eol

record mstate =
  opened :: "nat \<rightharpoonup> string"
  groups :: "nat \<rightharpoonup> string"

function (sequential) rmatch :: "item list \<Rightarrow> string \<Rightarrow> mstate \<Rightarrow> mstate option" where
  "rmatch [] s st = Some st"
| "rmatch (Chr P # r) [] st = None"
| "rmatch (Chr P # r) (c # s) st = (if P c then rmatch r s st else None)"
| "rmatch (Star Greedy P # r) [] st = rmatch r [] st"
| "rmatch (Star Greedy P # r) (c # s) st =
     (if P c
      then (case rmatch (Star Greedy P # r) s st of
              Some m \<Rightarrow> Some m
            | None \<Rightarrow> rmatch r (c # s) st)
      else rmatch r (c # s) st)"
| "rmatch (Star Reluctant P # r) [] st = rmatch r [] st"
| "rmatch (Star Reluctant P # r) (c # s) st =
     (case rmatch r (c # s) st of
        Some m \<Rightarrow> Some m
      | None \<Rightarrow> if P c then rmatch (Star Reluctant P # r) s st else None)"
| "rmatch (Opt P # r) [] st = rmatch r [] st"
| "rmatch (Opt P # r) (c # s) st =
     (if P c
      then (case rmatch r s st of Some m \<Rightarrow> Some m | None \<Rightarrow> rmatch r (c # s) st)
      else rmatch r (c # s) st)"
| "rmatch (Open i # r) s st = rmatch r s (st\<lparr>opened := (opened st)(i \<mapsto> s)\<rparr>)"
| "rmatch (Close i # r) s st =
     (case opened st i of
        None \<Rightarrow> None
      | Some s0 \<Rightarrow>
          rmatch r s (st\<lparr>groups := (groups st)(i \<mapsto> take (length s0 - length s) s0)\<rparr>))"
| "rmatch (OptSeq g # r) s st =
     (case rmatch (g @ r) s st of Some m \<Rightarrow> Some m | None \<Rightarrow> rmatch r s st)"
| "rmatch (Eol # r) s st = (if s = [] \<or> s = [CHR 0x0A] then rmatch r s st else None)"
  by pat_completeness auto
termination
  by (relation "inv_image (less_than <*lex*> less_than)
        (\<lambda>(r, s, st). (size_list size r, length s))") auto

text \<open>The capture groups that a pattern closes.\<close>

fun closes :: "item \<Rightarrow> nat set" where
  "closes (Close i) = {i}"
| "closes (OptSeq g) = (\<Union>x\<in>set g. closes x)"
| "closes _ = {}"

definition plus :: "greed \<Rightarrow> (char \<Rightarrow> bool) \<Rightarrow> item list" where
  \<comment> \<open>\<^verbatim>\<open>C+\<close> and \<^verbatim>\<open>C+?\<close>\<close>
  "plus g P = [Chr P, Star g P]"

definition group :: "nat \<Rightarrow> item list \<Rightarrow> item list" where
  "group i r = Open i # r @ [Close i]"

definition lit :: "char \<Rightarrow> item list" where
  "lit x = [Chr (\<lambda>c. c = x)]"

definition dot :: "char \<Rightarrow> bool" where
  \<comment> \<open>\<^verbatim>\<open>.\<close> without \<^verbatim>\<open>re.DOTALL\<close>\<close>
  "dot c = (c \<noteq> CHR 0x0A)"

definition x_ci :: "char \<Rightarrow> bool" where
  \<comment> \<open>\<^verbatim>\<open>x\<close> under \<^verbatim>\<open>re.IGNORECASE\<close>\<close>
  "x_ci c = (c = CHR ''x'' \<or> c = CHR ''X'')"

definition alnum_ci :: "char \<Rightarrow> bool" where
  \<comment> \<open>\<^verbatim>\<open>[A-Za-z0-9]\<close>\<close>
  "alnum_ci c = (is_ascii_letter c \<or> is_digit c)"

definition non_space :: "char \<Rightarrow> bool" where
  \<comment> \<open>\<^verbatim>\<open>\S\<close>\<close>
  "non_space c = (\<not> is_space c)"

definition re_match :: "item list \<Rightarrow> string \<Rightarrow> (nat \<rightharpoonup> string) option" where
  "re_match re s = map_option groups (rmatch re s \<lparr>opened = Map.empty, groups = Map.empty\<rparr>)"

definition grp :: "(nat \<rightharpoonup> string) \<Rightarrow> nat \<Rightarrow> string" where
  \<comment> \<open>\<^verbatim>\<open>match.group(i)\<close> for a group that every match of the pattern sets\<close>
  "grp g i = (case g i of Some x \<Rightarrow> x | None \<Rightarrow> [])"

section \<open>The decklist parser\<close>

definition mox_re :: "item list" where
  \<comment> \<open>\<^verbatim>\<open>^(\d+)x?\s+(.+?)\s+\(([A-Za-z0-9]+)\)\s+(\S+)(?:\s+\*[A-Z]+\*)?\s*$\<close>\<close>
  "mox_re =
     group 1 (plus Greedy is_digit) @ [Opt x_ci] @ plus Greedy is_space
     @ group 2 (plus Reluctant dot) @ plus Greedy is_space
     @ lit (CHR ''('') @ group 3 (plus Greedy alnum_ci) @ lit (CHR '')'')
     @ plus Greedy is_space @ group 4 (plus Greedy non_space)
     @ [OptSeq (plus Greedy is_space @ lit (CHR ''*'') @ plus Greedy is_ascii_letter
                @ lit (CHR ''*''))]
     @ [Star Greedy is_space, Eol]"

definition simple_re :: "item list" where
  \<comment> \<open>\<^verbatim>\<open>^(\d+)x?\s+(.+)$\<close>\<close>
  "simple_re =
     group 1 (plus Greedy is_digit) @ [Opt x_ci] @ plus Greedy is_space
     @ group 2 (plus Greedy dot) @ [Eol]"

definition MOXFIELD_SECTIONS :: "string set" where
  "MOXFIELD_SECTIONS = {''deck'', ''sideboard'', ''commander'', ''companions'',
     ''maybeboard'', ''mainboard'', ''considering'', ''acquired''}"

definition zero_count :: "string \<Rightarrow> bool" where
  \<comment> \<open>the line starts with a run of digits, all of them 0\<close>
  "zero_count s = (takeWhile is_digit s \<noteq> [] \<and> (\<forall>c\<in>set (takeWhile is_digit s). c = CHR ''0''))"

type_synonym entry = "string option \<times> nat \<times> string option \<times> string option"

definition parse_card_entry :: "string \<Rightarrow> entry" where
  \<comment> \<open>\<^verbatim>\<open>mtg_proxy_gui.parse_card_entry\<close>\<close>
  "parse_card_entry entry0 =
    (let entry = strip entry0 in
     if entry = [] \<or> startswith entry ''#'' then (None, 0, None, None)
     else if rstrip_chr (CHR '':'') (lower entry) \<in> MOXFIELD_SECTIONS
       then (None, 0, None, None)
     else
       case re_match mox_re entry of
         Some g \<Rightarrow>
           (Some (strip (grp g 2)), int_of_digits (grp g 1),
            Some (lower (strip (grp g 3))), Some (strip (grp g 4)))
       | None \<Rightarrow>
           (case re_match simple_re entry of
              Some g \<Rightarrow> (Some (strip (grp g 2)), int_of_digits (grp g 1), None, None)
            | None \<Rightarrow> (Some entry, 1, None, None)))"

type_synonym card_request = "string \<times> nat \<times> string option \<times> string option"

fun parse_decklist :: "string list \<Rightarrow> card_request list" where
  \<comment> \<open>\<^verbatim>\<open>MTGProxyGUI.parse_decklist\<close>, on the lines of the text\<close>
  "parse_decklist [] = []"
| "parse_decklist (line # rest) =
     (case parse_card_entry line of
        (name, qty, set_code, col_num) \<Rightarrow>
          (if truthy_str name
           then (case name of Some n \<Rightarrow> [(n, qty, set_code, col_num)] | None \<Rightarrow> [])
           else [])
          @ parse_decklist rest)"

definition cli_parse_card_entry :: "string \<Rightarrow> string option \<times> nat" where
  \<comment> \<open>\<^verbatim>\<open>mtg_proxy.parse_card_entry\<close>\<close>
  "cli_parse_card_entry entry0 =
    (let entry = strip entry0 in
     if entry = [] \<or> startswith entry ''#'' then (None, 0)
     else
       case re_match simple_re entry of
         Some g \<Rightarrow> (Some (strip (grp g 2)), int_of_digits (grp g 1))
       | None \<Rightarrow> (Some entry, 1))"

fun load_decklist :: "string list \<Rightarrow> (string \<times> nat) list" where
  \<comment> \<open>\<^verbatim>\<open>mtg_proxy.load_decklist\<close>, on the lines of the file\<close>
  "load_decklist [] = []"
| "load_decklist (line # rest) =
     (case cli_parse_card_entry line of
        (name, qty) \<Rightarrow>
          (if truthy_str name
           then (case name of Some n \<Rightarrow> [(n, qty)] | None \<Rightarrow> [])
           else [])
          @ load_decklist rest)"

section \<open>Catalog records and the choice of artwork\<close>

text \<open>
  A catalog response is a JSON object. The model keeps the keys the programs read, each
  optional as in a dictionary, and a flag for the presence of any other key (an object
  without keys is falsy in Python). The renditions are a dictionary from the name of a
  rendition to its address.
\<close>

record face =
  face_image_uris :: "(string \<rightharpoonup> string) option"

record card_data =
  cd_name :: "string option"
  cd_set :: "string option"
  cd_collector_number :: "string option"
  image_uris :: "(string \<rightharpoonup> string) option"
  card_faces :: "face list option"
  other_keys :: bool

fun first_key :: "string list \<Rightarrow> (string \<rightharpoonup> string) \<Rightarrow> string option" where
  \<comment> \<open>\<^verbatim>\<open>for key in keys: if key in uris: return uris[key]\<close>\<close>
  "first_key [] uris = None"
| "first_key (key # keys) uris =
     (case uris key of Some url \<Rightarrow> Some url | None \<Rightarrow> first_key keys uris)"

definition cli_get_image_url :: "card_data \<Rightarrow> string option" where
  \<comment> \<open>\<^verbatim>\<open>mtg_proxy.get_image_url\<close>\<close>
  "cli_get_image_url card_data =
     (case (case image_uris card_data of
              Some uris \<Rightarrow> first_key [''png'', ''large'', ''normal''] uris
            | None \<Rightarrow> None) of
        Some url \<Rightarrow> Some url
      | None \<Rightarrow>
          (case card_faces card_data of
             Some (face # others) \<Rightarrow>
               (case face_image_uris face of
                  Some uris \<Rightarrow> first_key [''png'', ''large'', ''normal''] uris
                | None \<Rightarrow> None)
           | Some [] \<Rightarrow> None
           | None \<Rightarrow> None))"

definition get_image_url :: "card_data \<Rightarrow> string \<Rightarrow> string option" where
  \<comment> \<open>\<^verbatim>\<open>mtg_proxy_gui.get_image_url\<close>; its callers pass \<^verbatim>\<open>'large'\<close>\<close>
  "get_image_url card_data sz =
     (case (case image_uris card_data of
              Some uris \<Rightarrow> first_key [sz, ''large'', ''normal'', ''small''] uris
            | None \<Rightarrow> None) of
        Some url \<Rightarrow> Some url
      | None \<Rightarrow>
          (case card_faces card_data of
             Some (face # others) \<Rightarrow>
               (case face_image_uris face of
                  Some uris \<Rightarrow> first_key [sz, ''large'', ''normal'', ''small''] uris
                | None \<Rightarrow> None)
           | Some [] \<Rightarrow> None
           | None \<Rightarrow> None))"

text \<open>
  The precedence in the words of the specification: the first of three renditions that is
  available; the renditions of the record itself, and of the first face.
\<close>

definition precedence :: "string \<Rightarrow> string \<Rightarrow> string \<Rightarrow> (string \<rightharpoonup> string) \<Rightarrow> string option" where
  "precedence a b c uris =
     (if a \<in> dom uris then uris a
      else if b \<in> dom uris then uris b
      else if c \<in> dom uris then uris c
      else None)"

definition top_renditions :: "card_data \<Rightarrow> (string \<rightharpoonup> string)" where
  "top_renditions card_data = (case image_uris card_data of Some uris \<Rightarrow> uris | None \<Rightarrow> Map.empty)"

definition first_face_renditions :: "card_data \<Rightarrow> (string \<rightharpoonup> string)" where
  "first_face_renditions card_data =
     (case card_faces card_data of
        Some (face # others) \<Rightarrow>
          (case face_image_uris face of Some uris \<Rightarrow> uris | None \<Rightarrow> Map.empty)
      | Some [] \<Rightarrow> Map.empty
      | None \<Rightarrow> Map.empty)"

text \<open>Sample records.\<close>

definition two_faced :: card_data where
  \<comment> \<open>a record without renditions of its own, and two faces\<close>
  "two_faced = \<lparr>cd_name = Some ''Delver of Secrets'', cd_set = Some ''isd'',
     cd_collector_number = Some ''51'', image_uris = None,
     card_faces = Some
       [\<lparr>face_image_uris = Some [''large'' \<mapsto> ''front-large'', ''normal'' \<mapsto> ''front-normal'']\<rparr>,
        \<lparr>face_image_uris = Some [''png'' \<mapsto> ''rear-png'']\<rparr>],
     other_keys = True\<rparr>"

definition single_faced :: card_data where
  \<comment> \<open>a record that offers all four renditions\<close>
  "single_faced = \<lparr>cd_name = Some ''Sol Ring'', cd_set = Some ''mh3'',
     cd_collector_number = Some ''532'',
     image_uris = Some [''small'' \<mapsto> ''u-small'', ''normal'' \<mapsto> ''u-normal'',
       ''large'' \<mapsto> ''u-large'', ''png'' \<mapsto> ''u-png''],
     card_faces = None, other_keys = True\<rparr>"

section \<open>The image cache\<close>

text \<open>
  The cache directory is a map from file names to contents. A download is a GET request;
  \<open>net\<close> gives its outcome: the body, or nothing when the request raises (a transport
  failure or an error status). The requests made are logged in order.
\<close>

type_synonym bytes = "nat list"

record store =
  files :: "string \<rightharpoonup> bytes"
  requested :: "string list"

definition special_chr :: "char \<Rightarrow> bool" where
  \<comment> \<open>the class of \<^verbatim>\<open>sanitize_filename\<close>: one of \<^verbatim>\<open>< > : " / \ | ? *\<close>\<close>
  "special_chr c = (c \<in> {CHR ''<'', CHR ''>'', CHR '':'', CHR 0x22, CHR ''/'', CHR 0x5C,
     CHR ''|'', CHR ''?'', CHR ''*''})"

definition sanitize_filename :: "string \<Rightarrow> string" where
  "sanitize_filename name =
     map (\<lambda>c. if special_chr c then CHR ''_'' else c)
       (replace_chr (CHR '' '') (CHR ''_'') (lower name))"

definition cache_filename :: "string \<Rightarrow> string option \<Rightarrow> string option \<Rightarrow> string" where
  \<comment> \<open>the file name that \<^verbatim>\<open>mtg_proxy_gui.download_image\<close> derives\<close>
  "cache_filename card_name set_code collector_number =
     (case (set_code, collector_number) of
        (Some s, Some n) \<Rightarrow>
          if s \<noteq> [] \<and> n \<noteq> []
          then sanitize_filename (card_name @ ''_'' @ s @ ''_'' @ n) @ ''.png''
          else sanitize_filename card_name @ ''.png''
      | _ \<Rightarrow> sanitize_filename card_name @ ''.png'')"

definition download_image ::
  "(string \<Rightarrow> bytes option) \<Rightarrow> string \<Rightarrow> string \<Rightarrow> bool \<Rightarrow> string option \<Rightarrow> string option
     \<Rightarrow> store \<Rightarrow> string option \<times> store" where
  \<comment> \<open>\<^verbatim>\<open>mtg_proxy_gui.download_image\<close>; the result is the path in the cache\<close>
  "download_image net url card_name use_cache set_code collector_number st =
     (let cache_path = cache_filename card_name set_code collector_number in
      if use_cache \<and> cache_path \<in> dom (files st) then (Some cache_path, st)
      else
        (let st1 = st\<lparr>requested := requested st @ [url]\<rparr> in
         case net url of
           Some content \<Rightarrow> (Some cache_path, st1\<lparr>files := (files st1)(cache_path \<mapsto> content)\<rparr>)
         | None \<Rightarrow> (None, st1)))"

definition cli_download_image ::
  "(string \<Rightarrow> bytes option) \<Rightarrow> string \<Rightarrow> string \<Rightarrow> bool \<Rightarrow> store \<Rightarrow> string option \<times> store" where
  \<comment> \<open>\<^verbatim>\<open>mtg_proxy.download_image\<close>\<close>
  "cli_download_image net url card_name use_cache st =
     (let cache_path = sanitize_filename card_name @ ''.png'' in
      if use_cache \<and> cache_path \<in> dom (files st) then (Some cache_path, st)
      else
        (let st1 = st\<lparr>requested := requested st @ [url]\<rparr> in
         case net url of
           Some content \<Rightarrow> (Some cache_path, st1\<lparr>files := (files st1)(cache_path \<mapsto> content)\<rparr>)
         | None \<Rightarrow> (None, st1)))"

text \<open>Strings that sanitizing leaves as they are, up to the case of letters.\<close>

definition plain_name :: "string \<Rightarrow> bool" where
  \<comment> \<open>no special character and no underscore; spaces are allowed\<close>
  "plain_name s = (\<forall>c\<in>set s. \<not> special_chr c \<and> c \<noteq> CHR ''_'')"

definition plain_code :: "string \<Rightarrow> bool" where
  \<comment> \<open>no special character, no underscore and no space, and not empty\<close>
  "plain_code s = (s \<noteq> [] \<and> (\<forall>c\<in>set s. \<not> special_chr c \<and> c \<noteq> CHR ''_'' \<and> c \<noteq> CHR '' ''))"

definition empty_store :: store where
  "empty_store = \<lparr>files = Map.empty, requested = []\<rparr>"

definition san_chr :: "char \<Rightarrow> char" where
  \<comment> \<open>what \<open>sanitize_filename\<close> does to one character\<close>
  "san_chr c =
     (let l = lower_chr c; r = (if l = CHR '' '' then CHR ''_'' else l)
      in if special_chr r then CHR ''_'' else r)"

section \<open>The sheet layout\<close>

text \<open>
  \<^verbatim>\<open>create_pdf\<close> is the same in both programs. The model keeps, for every
  \<^verbatim>\<open>drawImage\<close>, the index of the page it draws on (the number of
  \<^verbatim>\<open>showPage\<close> calls before it), the row, the column and the card; the position
  on the paper is a function of the row and the column. \<^verbatim>\<open>save\<close> emits the page
  being drawn when something was drawn on it. Both programs call \<^verbatim>\<open>create_pdf\<close>
  only with a list that is not empty.
\<close>

definition CARDS_PER_ROW :: nat where
  "CARDS_PER_ROW = 3"

definition CARDS_PER_COL :: nat where
  "CARDS_PER_COL = 3"

definition CARDS_PER_PAGE :: nat where
  "CARDS_PER_PAGE = CARDS_PER_ROW * CARDS_PER_COL"

record 'a placement =
  page_index :: nat
  row :: nat
  col :: nat
  card_img :: 'a

record 'a pdf =
  card_index :: nat
  shown :: nat
  unsaved :: bool
  placed :: "'a placement list"

definition draw_card :: "'a list \<Rightarrow> nat \<Rightarrow> nat \<Rightarrow> 'a pdf \<Rightarrow> 'a pdf" where
  \<comment> \<open>the body of the inner loop, once the index is known to be in range\<close>
  "draw_card cards r c s =
     s\<lparr>placed := placed s @
          [\<lparr>page_index = shown s, row = r, col = c, card_img = cards ! card_index s\<rparr>],
       unsaved := True,
       card_index := Suc (card_index s)\<rparr>"

fun col_loop :: "'a list \<Rightarrow> nat \<Rightarrow> nat list \<Rightarrow> 'a pdf \<Rightarrow> 'a pdf" where
  \<comment> \<open>\<^verbatim>\<open>for col in range(CARDS_PER_ROW)\<close>, with its \<^verbatim>\<open>break\<close>\<close>
  "col_loop cards r [] s = s"
| "col_loop cards r (c # cs) s =
     (if card_index s \<ge> length cards then s
      else col_loop cards r cs (draw_card cards r c s))"

fun row_loop :: "'a list \<Rightarrow> nat list \<Rightarrow> 'a pdf \<Rightarrow> 'a pdf" where
  \<comment> \<open>\<^verbatim>\<open>for row in range(CARDS_PER_COL)\<close>\<close>
  "row_loop cards [] s = s"
| "row_loop cards (r # rs) s = row_loop cards rs (col_loop cards r [0..<CARDS_PER_ROW] s)"

definition show_page :: "'a pdf \<Rightarrow> 'a pdf" where
  "show_page s = s\<lparr>shown := Suc (shown s), unsaved := False\<rparr>"

lemma col_loop_index:
  "card_index s \<le> card_index (col_loop cards r cs s)
   \<and> (card_index s < length cards \<and> cs \<noteq> [] \<longrightarrow> card_index s < card_index (col_loop cards r cs s))"
proof (induction cs arbitrary: s)
  case Nil
  then show ?case by simp
next
  case (Cons c cs)
  from Cons [of "draw_card cards r c s"] show ?case
    by (auto simp: draw_card_def)
qed

lemma row_loop_index:
  "card_index s \<le> card_index (row_loop cards rs s)
   \<and> (card_index s < length cards \<and> rs \<noteq> [] \<longrightarrow> card_index s < card_index (row_loop cards rs s))"
proof (induction rs arbitrary: s)
  case Nil
  then show ?case by simp
next
  case (Cons r rs)
  have ne: "[0..<CARDS_PER_ROW] \<noteq> []"
    by (simp add: CARDS_PER_ROW_def)
  from Cons [of "col_loop cards r [0..<CARDS_PER_ROW] s"]
    col_loop_index [of s cards r "[0..<CARDS_PER_ROW]"] ne
  show ?case
    by (simp del: upt_eq_Nil_conv) linarith
qed

function page_loop :: "'a list \<Rightarrow> 'a pdf \<Rightarrow> 'a pdf" where
  \<comment> \<open>\<^verbatim>\<open>while card_index < total_cards\<close>\<close>
  "page_loop cards s =
     (if card_index s < length cards
      then
        (let s1 = row_loop cards [0..<CARDS_PER_COL] s
         in page_loop cards (if card_index s1 < length cards then show_page s1 else s1))
      else s)"
  by pat_completeness auto
termination
proof (relation "measure (\<lambda>(cards, s). length cards - card_index s)")
  show "wf (measure (\<lambda>(cards, s). length cards - card_index s))"
    by simp
next
  fix cards :: "'a list" and s s1 :: "'a pdf"
  assume lt: "card_index s < length cards" and s1: "s1 = row_loop cards [0..<CARDS_PER_COL] s"
  have "[0..<CARDS_PER_COL] \<noteq> []"
    by (simp add: CARDS_PER_COL_def)
  with row_loop_index [of s cards "[0..<CARDS_PER_COL]"] lt s1
  have "card_index s < card_index s1"
    by blast
  with lt show "((cards, if card_index s1 < length cards then show_page s1 else s1), (cards, s))
      \<in> measure (\<lambda>(cards, s). length cards - card_index s)"
    by (auto simp: show_page_def)
qed

definition create_pdf :: "'a list \<Rightarrow> 'a placement list \<times> nat" where
  \<comment> \<open>the placements in drawing order, and the number of pages of the document\<close>
  "create_pdf cards =
     (let s = page_loop cards \<lparr>card_index = 0, shown = 0, unsaved = False, placed = []\<rparr>
      in (placed s, if unsaved s then Suc (shown s) else shown s))"

definition cell :: "'a list \<Rightarrow> nat \<Rightarrow> 'a placement" where
  \<comment> \<open>the cell of the i-th image in row-major order\<close>
  "cell cards i =
     \<lparr>page_index = i div CARDS_PER_PAGE,
      row = (i mod CARDS_PER_PAGE) div CARDS_PER_ROW,
      col = i mod CARDS_PER_ROW,
      card_img = cards ! i\<rparr>"

definition cell_of :: "'a placement \<Rightarrow> nat \<times> nat \<times> nat" where
  "cell_of p = (page_index p, row p, col p)"

section \<open>The image normalizer\<close>


















section \<open>The pipeline\<close>







subsection \<open>The graphical program\<close>







subsection \<open>The command-line program\<close>
















section \<open>Facts about the matcher\<close>

lemma no_space_no_match:
  "Chr is_space \<in> set r \<Longrightarrow> \<forall>c\<in>set s. \<not> is_space c \<Longrightarrow> rmatch r s st = None"
  by (induction r s st rule: rmatch.induct) (auto split: option.splits)

lemma star_greedy_all:
  assumes "\<And>c s st. P c \<Longrightarrow> rmatch r (c # s) st = None"
  shows "rmatch (Star Greedy P # r) s st = rmatch r (dropWhile P s) st"
  using assms by (induction s) (auto split: option.splits)

lemma groups_frame:
  "rmatch r s st = Some m \<Longrightarrow> i \<notin> (\<Union>x\<in>set r. closes x) \<Longrightarrow> groups m i = groups st i"
  by (induction r s st arbitrary: m rule: rmatch.induct) (auto split: option.splits if_splits)

lemma take_length_dropWhile:
  "take (length s - length (dropWhile P s)) s = takeWhile P s"
proof -
  have "length s = length (takeWhile P s) + length (dropWhile P s)"
    by (metis length_append takeWhile_dropWhile_id)
  then have "length s - length (dropWhile P s) = length (takeWhile P s)"
    by simp
  then show ?thesis
    by (metis takeWhile_eq_take)
qed

lemma digit_not_space: "is_digit c \<Longrightarrow> \<not> is_space c"
  by (auto simp: is_digit_def is_space_def Let_def)

lemma digit_not_x: "is_digit c \<Longrightarrow> \<not> x_ci c"
  by (auto simp: is_digit_def x_ci_def)

lemma quantity_group:
  assumes m: "rmatch (group 1 (plus Greedy is_digit) @ [Opt x_ci] @ plus Greedy is_space @ rest)
                s st = Some m"
    and rest: "1 \<notin> (\<Union>x\<in>set rest. closes x)"
  shows "takeWhile is_digit s \<noteq> [] \<and> groups m 1 = Some (takeWhile is_digit s)"
proof -
  let ?tail = "Opt x_ci # Chr is_space # Star Greedy is_space # rest"
  have stop: "\<And>c s st. is_digit c \<Longrightarrow> rmatch (Close 1 # ?tail) (c # s) st = None"
    by (simp add: digit_not_space digit_not_x split: option.splits)
  from m obtain c s' where s: "s = c # s'" and c: "is_digit c"
    by (cases s) (auto simp: group_def plus_def split: if_splits)
  let ?st1 = "st\<lparr>opened := (opened st)(1 \<mapsto> s)\<rparr>"
  from m s c have "rmatch (Star Greedy is_digit # Close 1 # ?tail) s' ?st1 = Some m"
    by (simp add: group_def plus_def)
  then have "rmatch (Close 1 # ?tail) (dropWhile is_digit s') ?st1 = Some m"
    using star_greedy_all [of is_digit "Close 1 # ?tail", OF stop] by simp
  then have "rmatch ?tail (dropWhile is_digit s')
      (?st1\<lparr>groups := (groups ?st1)(1 \<mapsto> take (length s - length (dropWhile is_digit s')) s)\<rparr>)
      = Some m"
    by simp
  from groups_frame [OF this, of 1] rest
  have "groups m 1 = Some (take (length s - length (dropWhile is_digit s')) s)"
    by simp
  moreover have "dropWhile is_digit s' = dropWhile is_digit s"
    using s c by simp
  ultimately have "groups m 1 = Some (takeWhile is_digit s)"
    by (simp add: take_length_dropWhile)
  moreover have "takeWhile is_digit s \<noteq> []"
    using s c by simp
  ultimately show ?thesis by simp
qed

lemma strip_padded:
  assumes "\<forall>c\<in>set pre. is_space c" and "\<forall>c\<in>set post. is_space c"
    and "tok \<noteq> []" and "\<forall>c\<in>set tok. \<not> is_space c"
  shows "strip (pre @ tok @ post) = tok"
proof -
  have keep: "dropWhile is_space t = t" if "t \<noteq> []" and "\<not> is_space (hd t)" for t
    using that by (cases t) simp_all
  have "dropWhile is_space (pre @ tok @ post) = dropWhile is_space (tok @ post)"
    using assms(1) by (intro dropWhile_append2) simp
  also have "\<dots> = tok @ post"
    using assms(3,4) by (intro keep) simp_all
  finally have front: "dropWhile is_space (pre @ tok @ post) = tok @ post" .
  have "dropWhile is_space (rev post @ rev tok) = dropWhile is_space (rev tok)"
    using assms(2) by (intro dropWhile_append2) simp
  also have "\<dots> = rev tok"
    using assms(3,4) by (intro keep) (simp_all add: hd_rev)
  finally have rear: "dropWhile is_space (rev post @ rev tok) = rev tok" .
  show ?thesis
    by (simp add: strip_def front rear)
qed

lemma rstrip_chr_prefix: "\<exists>t. s = rstrip_chr x s @ t"
proof -
  have "rev s = takeWhile (\<lambda>c. c = x) (rev s) @ dropWhile (\<lambda>c. c = x) (rev s)"
    by simp
  then have "s = rev (dropWhile (\<lambda>c. c = x) (rev s)) @ rev (takeWhile (\<lambda>c. c = x) (rev s))"
    by (metis rev_append rev_rev_ident)
  then show ?thesis
    unfolding rstrip_chr_def by blast
qed

lemma section_starts_with_letter:
  assumes "rstrip_chr x s \<in> MOXFIELD_SECTIONS"
  shows "s \<noteq> [] \<and> is_ascii_letter (hd s)"
proof -
  obtain t where t: "s = rstrip_chr x s @ t"
    using rstrip_chr_prefix by blast
  from assms have "rstrip_chr x s \<noteq> [] \<and> is_ascii_letter (hd (rstrip_chr x s))"
    by (auto simp: MOXFIELD_SECTIONS_def is_ascii_letter_def)
  then show ?thesis
    using t by (metis append_is_Nil_conv hd_append2)
qed

lemma digit_lower: "is_digit c \<Longrightarrow> lower_chr c = c"
  by (auto simp: is_digit_def lower_chr_def is_upper_def Let_def)

lemma digit_not_letter: "is_digit c \<Longrightarrow> \<not> is_ascii_letter c"
  by (auto simp: is_digit_def is_ascii_letter_def Let_def)

lemma mox_re_needs_space: "Chr is_space \<in> set mox_re"
  by (simp add: mox_re_def plus_def group_def lit_def)

lemma simple_re_needs_space: "Chr is_space \<in> set simple_re"
  by (simp add: simple_re_def plus_def group_def)

lemma no_space_no_re_match:
  assumes "\<forall>c\<in>set s. \<not> is_space c"
  shows "re_match mox_re s = None" and "re_match simple_re s = None"
  using assms no_space_no_match [OF mox_re_needs_space] no_space_no_match [OF simple_re_needs_space]
  by (simp_all add: re_match_def)

lemma int_of_digits_zero_aux:
  "foldl (\<lambda>a c. 10 * a + (of_char c - 48)) a ds = (0::nat) \<Longrightarrow>
     a = 0 \<and> (\<forall>c\<in>set ds. (of_char c :: nat) \<le> 48)"
proof (induction ds arbitrary: a)
  case Nil
  then show ?case by simp
next
  case (Cons d ds)
  from Cons.prems have "foldl (\<lambda>a c. 10 * a + (of_char c - 48)) (10 * a + (of_char d - 48)) ds = 0"
    by simp
  from Cons.IH [OF this]
  have "10 * a + (of_char d - 48) = (0::nat)" and "\<forall>c\<in>set ds. (of_char c :: nat) \<le> 48"
    by simp_all
  then show ?case by simp
qed

lemma digit_zero: "is_digit c \<Longrightarrow> (of_char c :: nat) \<le> 48 \<Longrightarrow> c = CHR ''0''"
proof -
  assume "is_digit c" and "(of_char c :: nat) \<le> 48"
  then have "(of_char c :: nat) = of_char (CHR ''0'')"
    by (simp add: is_digit_def Let_def)
  then show ?thesis
    by (simp only: of_char_eq_iff)
qed

lemma int_of_digits_zero:
  assumes "\<forall>c\<in>set ds. is_digit c" and "int_of_digits ds = 0"
  shows "\<forall>c\<in>set ds. c = CHR ''0''"
  using assms int_of_digits_zero_aux [of 0 ds] digit_zero
  by (auto simp: int_of_digits_def)

lemma mox_quantity:
  assumes "re_match mox_re s = Some g"
  shows "takeWhile is_digit s \<noteq> [] \<and> grp g 1 = takeWhile is_digit s"
proof -
  from assms obtain m where m: "rmatch mox_re s \<lparr>opened = Map.empty, groups = Map.empty\<rparr> = Some m"
    and g: "g = groups m"
    by (auto simp: re_match_def)
  show ?thesis
    using quantity_group [OF m [unfolded mox_re_def]] g
    by (simp add: grp_def group_def plus_def lit_def)
qed

lemma simple_quantity:
  assumes "re_match simple_re s = Some g"
  shows "takeWhile is_digit s \<noteq> [] \<and> grp g 1 = takeWhile is_digit s"
proof -
  from assms obtain m where m: "rmatch simple_re s \<lparr>opened = Map.empty, groups = Map.empty\<rparr> = Some m"
    and g: "g = groups m"
    by (auto simp: re_match_def)
  show ?thesis
    using quantity_group [OF m [unfolded simple_re_def]] g
    by (simp add: grp_def group_def plus_def)
qed

lemma quantity_zero_count:
  assumes "takeWhile is_digit s \<noteq> []" and "int_of_digits (takeWhile is_digit s) = 0"
  shows "zero_count s"
  using assms int_of_digits_zero [of "takeWhile is_digit s"]
  by (auto simp: zero_count_def dest: set_takeWhileD)

section \<open>The parser: claims C4, C9 and C10\<close>




text \<open>
  C9 (as amended). A request that either parser returns has quantity at least 1, unless the
  line starts with a count written with zeros only (as in \<^verbatim>\<open>0 Sol Ring\<close>): the
  quantity is the value of the leading run of digits, and nothing rejects zero.
\<close>

theorem quantity_positive_or_zero_count:
  "(parse_card_entry e = (Some n, q, sc, cn) \<longrightarrow> 1 \<le> q \<or> zero_count (strip e))
   \<and> (cli_parse_card_entry e = (Some n, q) \<longrightarrow> 1 \<le> q \<or> zero_count (strip e))"
proof (intro conjI impI)
  assume p: "parse_card_entry e = (Some n, q, sc, cn)"
  show "1 \<le> q \<or> zero_count (strip e)"
  proof (cases "re_match mox_re (strip e)")
    case (Some g)
    with p have "q = int_of_digits (grp g 1)"
      by (auto simp: parse_card_entry_def Let_def split: if_splits)
    with mox_quantity [OF Some] quantity_zero_count [of "strip e"] show ?thesis
      by (cases "q = 0") auto
  next
    case None
    note mox = this
    show ?thesis
    proof (cases "re_match simple_re (strip e)")
      case (Some g)
      with p mox have "q = int_of_digits (grp g 1)"
        by (auto simp: parse_card_entry_def Let_def split: if_splits)
      with simple_quantity [OF Some] quantity_zero_count [of "strip e"] show ?thesis
        by (cases "q = 0") auto
    next
      case None
      with p mox have "q = 1"
        by (auto simp: parse_card_entry_def Let_def split: if_splits)
      then show ?thesis by simp
    qed
  qed
next
  assume p: "cli_parse_card_entry e = (Some n, q)"
  show "1 \<le> q \<or> zero_count (strip e)"
  proof (cases "re_match simple_re (strip e)")
    case (Some g)
    with p have "q = int_of_digits (grp g 1)"
      by (auto simp: cli_parse_card_entry_def Let_def split: if_splits)
    with simple_quantity [OF Some] quantity_zero_count [of "strip e"] show ?thesis
      by (cases "q = 0") auto
  next
    case None
    with p have "q = 1"
      by (auto simp: cli_parse_card_entry_def Let_def split: if_splits)
    then show ?thesis by simp
  qed
qed

theorem quantity_positive_or_zero_count_witness:
  "parse_card_entry ''4x Lightning Bolt'' = (Some ''Lightning Bolt'', 4, None, None)
   \<and> cli_parse_card_entry ''4x Lightning Bolt'' = (Some ''Lightning Bolt'', 4)
   \<and> ((1::nat) \<le> 4 \<or> zero_count (strip ''4x Lightning Bolt''))"
proof -
  have a: "parse_card_entry ''4x Lightning Bolt'' = (Some ''Lightning Bolt'', 4, None, None)"
    by code_simp
  have b: "cli_parse_card_entry ''4x Lightning Bolt'' = (Some ''Lightning Bolt'', 4)"
    by code_simp
  from a b quantity_positive_or_zero_count
    [of "''4x Lightning Bolt''" "''Lightning Bolt''" 4 None None]
  show ?thesis by blast
qed

text \<open>
  The claim as stated fails: the line \<^verbatim>\<open>0 Sol Ring\<close> is not skipped and gives a
  request of quantity 0, in both programs and in both dialects.
\<close>

theorem quantity_zero_counterexample:
  "parse_decklist [''0 Sol Ring''] = [(''Sol Ring'', 0, None, None)]
   \<and> parse_decklist [''0x Sol Ring (MH3) 532''] = [(''Sol Ring'', 0, Some ''mh3'', Some ''532'')]
   \<and> load_decklist [''0 Sol Ring''] = [(''Sol Ring'', 0)]"
  by code_simp

text \<open>
  C10. A line that holds only a run of digits, or a run of digits followed by
  \<^verbatim>\<open>x\<close>, possibly with white space around it, is returned whole (stripped) as the
  card name, with quantity 1 and no printing: both patterns need white space and a name
  after the count. This holds in both programs.
\<close>

theorem integer_token_is_name:
  assumes "ds \<noteq> []" and "\<forall>c\<in>set ds. is_digit c"
    and "sfx = [] \<or> sfx = ''x'' \<or> sfx = ''X''"
    and "\<forall>c\<in>set pre. is_space c" and "\<forall>c\<in>set post. is_space c"
  shows "parse_card_entry (pre @ ds @ sfx @ post) = (Some (ds @ sfx), 1, None, None)
    \<and> cli_parse_card_entry (pre @ ds @ sfx @ post) = (Some (ds @ sfx), 1)"
proof -
  let ?tok = "ds @ sfx"
  have sfx: "\<forall>c\<in>set sfx. \<not> is_space c"
    using assms(3) by (auto simp: is_space_def)
  have nospace: "\<forall>c\<in>set ?tok. \<not> is_space c"
    using assms(2) sfx by (auto simp: digit_not_space)
  have st: "strip (pre @ ds @ sfx @ post) = ?tok"
    using strip_padded [of pre post ?tok] assms(1,4,5) nospace by simp
  from assms(1) obtain d ds' where ds: "ds = d # ds'"
    by (cases ds) auto
  with assms(2) have d: "is_digit d"
    by simp
  have "d \<noteq> CHR ''#''"
    using d by (auto simp: is_digit_def)
  then have nohash: "\<not> startswith ?tok ''#''"
    using ds by (simp add: startswith_def)
  have "hd (lower ?tok) = d"
    using ds d by (simp add: lower_def digit_lower)
  then have nosect: "rstrip_chr (CHR '':'') (lower ?tok) \<notin> MOXFIELD_SECTIONS"
    using section_starts_with_letter [of "CHR '':''" "lower ?tok"] d digit_not_letter
    by auto
  have nonempty: "?tok \<noteq> []"
    using assms(1) by simp
  show ?thesis
    using st nohash nosect nonempty no_space_no_re_match [OF nospace]
    by (simp add: parse_card_entry_def cli_parse_card_entry_def Let_def)
qed

theorem integer_token_is_name_witness:
  "parse_card_entry ''13x'' = (Some ''13x'', 1, None, None)
   \<and> cli_parse_card_entry ''13x'' = (Some ''13x'', 1)
   \<and> parse_card_entry '' 4 '' = (Some ''4'', 1, None, None)
   \<and> cli_parse_card_entry '' 4 '' = (Some ''4'', 1)"
  using integer_token_is_name [of "''13''" "''x''" "[]" "[]"]
    integer_token_is_name [of "''4''" "[]" "'' ''" "'' ''"]
  by (simp add: is_digit_def is_space_def)

section \<open>The choice of artwork: claim C3\<close>

lemma first_key_3: "first_key [a, b, c] uris = precedence a b c uris"
  by (auto simp: precedence_def dom_def split: option.splits)

lemma first_key_large: "first_key [''large'', ''large'', ''normal'', ''small''] uris
    = precedence ''large'' ''normal'' ''small'' uris"
  by (auto simp: precedence_def dom_def split: option.splits)

text \<open>
  C3 (as amended). The command-line program chooses the artwork by the order png, then
  large, then normal. The graphical program asks for the size large and chooses by the
  precedence large, then normal, then small; it never prefers png. In both programs the
  same precedence is applied to the renditions of the record and, when the record offers
  none of them, to those of its first face; no other face is read.
\<close>

theorem artwork_precedence:
  "cli_get_image_url card_data =
     (case precedence ''png'' ''large'' ''normal'' (top_renditions card_data) of
        Some url \<Rightarrow> Some url
      | None \<Rightarrow> precedence ''png'' ''large'' ''normal'' (first_face_renditions card_data))
   \<and> get_image_url card_data ''large'' =
     (case precedence ''large'' ''normal'' ''small'' (top_renditions card_data) of
        Some url \<Rightarrow> Some url
      | None \<Rightarrow> precedence ''large'' ''normal'' ''small'' (first_face_renditions card_data))"
proof
  have e: "precedence a b c Map.empty = None" for a b c
    by (simp add: precedence_def)
  show "cli_get_image_url card_data =
     (case precedence ''png'' ''large'' ''normal'' (top_renditions card_data) of
        Some url \<Rightarrow> Some url
      | None \<Rightarrow> precedence ''png'' ''large'' ''normal'' (first_face_renditions card_data))"
    unfolding cli_get_image_url_def top_renditions_def first_face_renditions_def first_key_3
    by (simp add: e split: option.splits list.splits)
  show "get_image_url card_data ''large'' =
     (case precedence ''large'' ''normal'' ''small'' (top_renditions card_data) of
        Some url \<Rightarrow> Some url
      | None \<Rightarrow> precedence ''large'' ''normal'' ''small'' (first_face_renditions card_data))"
    unfolding get_image_url_def top_renditions_def first_face_renditions_def first_key_large
    by (simp add: e split: option.splits list.splits)
qed

theorem artwork_precedence_witness:
  "cli_get_image_url two_faced = Some ''front-large''
   \<and> get_image_url two_faced ''large'' = Some ''front-large''
   \<and> cli_get_image_url single_faced = Some ''u-png''"
  using artwork_precedence [of two_faced] artwork_precedence [of single_faced]
  by (simp add: two_faced_def single_faced_def precedence_def top_renditions_def
      first_face_renditions_def)

text \<open>
  The claim as stated fails on the graphical program: for a record that offers png and
  large it returns large, and for a record that offers only small it returns small.
\<close>

theorem artwork_precedence_counterexample:
  "get_image_url single_faced ''large'' = Some ''u-large''
   \<and> precedence ''png'' ''large'' ''normal'' (top_renditions single_faced) = Some ''u-png''
   \<and> get_image_url (single_faced\<lparr>image_uris := Some [''small'' \<mapsto> ''u-small'']\<rparr>) ''large''
       = Some ''u-small''"
  by (simp add: get_image_url_def single_faced_def precedence_def top_renditions_def)

section \<open>The image cache: claims C5 and C8\<close>

lemma cli_download_image_eq:
  "cli_download_image net url card_name use_cache st
     = download_image net url card_name use_cache None None st"
  by (simp add: cli_download_image_def download_image_def cache_filename_def)

lemma download_image_miss:
  assumes "\<not> (use_cache \<and> cache_filename card_name sc cn \<in> dom (files st))"
    and "net url = Some content"
  shows "download_image net url card_name use_cache sc cn st
     = (Some (cache_filename card_name sc cn),
        \<lparr>files = (files st)(cache_filename card_name sc cn \<mapsto> content),
         requested = requested st @ [url]\<rparr>)"
  using assms by (auto simp: download_image_def Let_def)

lemma download_image_hit:
  assumes "cache_filename card_name sc cn \<in> dom (files st)"
  shows "download_image net url card_name True sc cn st
     = (Some (cache_filename card_name sc cn), st)"
  using assms by (simp add: download_image_def Let_def)

lemma download_image_failure:
  assumes "\<not> (use_cache \<and> cache_filename card_name sc cn \<in> dom (files st))"
    and "net url = None"
  shows "download_image net url card_name use_cache sc cn st
     = (None, st\<lparr>requested := requested st @ [url]\<rparr>)"
  using assms by (auto simp: download_image_def Let_def)

text \<open>
  C5. With the cache in use and nothing stored under the key, a first call whose fetch
  succeeds stores the body under the key and returns its path; a second call with the same
  key then returns the same path, under which the first body is stored, and leaves the
  store as it is, whatever the network would answer: no request is made. When the fetch of
  a call fails, the call returns nothing and the files of the cache are unchanged. Both
  hold in both programs.
\<close>

theorem cache_second_call_no_fetch:
  "(cache_filename card_name sc cn \<notin> dom (files st) \<and> net1 url1 = Some content \<longrightarrow>
      (\<exists>st1. download_image net1 url1 card_name True sc cn st
                = (Some (cache_filename card_name sc cn), st1)
        \<and> files st1 (cache_filename card_name sc cn) = Some content
        \<and> download_image net2 url2 card_name True sc cn st1
                = (Some (cache_filename card_name sc cn), st1)))
   \<and> (cache_filename card_name None None \<notin> dom (files st) \<and> net1 url1 = Some content \<longrightarrow>
      (\<exists>st1. cli_download_image net1 url1 card_name True st
                = (Some (cache_filename card_name None None), st1)
        \<and> files st1 (cache_filename card_name None None) = Some content
        \<and> cli_download_image net2 url2 card_name True st1
                = (Some (cache_filename card_name None None), st1)))
   \<and> (\<not> (use_cache \<and> cache_filename card_name sc cn \<in> dom (files st)) \<and> net1 url1 = None \<longrightarrow>
      fst (download_image net1 url1 card_name use_cache sc cn st) = None
        \<and> files (snd (download_image net1 url1 card_name use_cache sc cn st)) = files st)
   \<and> (\<not> (use_cache \<and> cache_filename card_name None None \<in> dom (files st))
        \<and> net1 url1 = None \<longrightarrow>
      fst (cli_download_image net1 url1 card_name use_cache st) = None
        \<and> files (snd (cli_download_image net1 url1 card_name use_cache st)) = files st)"
proof -
  have twice: "\<exists>st1. download_image net1 url1 card_name True s n st
                = (Some (cache_filename card_name s n), st1)
        \<and> files st1 (cache_filename card_name s n) = Some content
        \<and> download_image net2 url2 card_name True s n st1
                = (Some (cache_filename card_name s n), st1)"
    if "cache_filename card_name s n \<notin> dom (files st)" and "net1 url1 = Some content" for s n
  proof -
    let ?st1 = "\<lparr>files = (files st)(cache_filename card_name s n \<mapsto> content),
                 requested = requested st @ [url1]\<rparr>"
    have "download_image net1 url1 card_name True s n st
        = (Some (cache_filename card_name s n), ?st1)"
      using that by (intro download_image_miss) simp_all
    moreover have "download_image net2 url2 card_name True s n ?st1
        = (Some (cache_filename card_name s n), ?st1)"
      by (intro download_image_hit) simp
    ultimately show ?thesis by simp
  qed
  have failed: "fst (download_image net1 url1 card_name use_cache s n st) = None
        \<and> files (snd (download_image net1 url1 card_name use_cache s n st)) = files st"
    if "\<not> (use_cache \<and> cache_filename card_name s n \<in> dom (files st))" and "net1 url1 = None"
    for s n
    using that by (simp add: download_image_failure)
  show ?thesis
    unfolding cli_download_image_eq using twice failed by blast
qed

theorem cache_second_call_no_fetch_witness:
  "download_image (\<lambda>u. None) ''u2'' ''Sol Ring'' True (Some ''mh3'') (Some ''532'')
      (snd (download_image (\<lambda>u. Some [1, 2, 3]) ''u1'' ''Sol Ring'' True (Some ''mh3'')
         (Some ''532'') empty_store))
    = (Some ''sol_ring_mh3_532.png'',
       \<lparr>files = [''sol_ring_mh3_532.png'' \<mapsto> [1, 2, 3]], requested = [''u1'']\<rparr>)
   \<and> download_image (\<lambda>u. None) ''u1'' ''Sol Ring'' True None None empty_store
    = (None, \<lparr>files = Map.empty, requested = [''u1'']\<rparr>)"
proof -
  have k: "cache_filename ''Sol Ring'' (Some ''mh3'') (Some ''532'') = ''sol_ring_mh3_532.png''"
    by code_simp
  have k0: "cache_filename ''Sol Ring'' None None = ''sol_ring.png''"
    by code_simp
  from cache_second_call_no_fetch
    [of "''Sol Ring''" "Some ''mh3''" "Some ''532''" empty_store "\<lambda>u. Some [1, 2, 3]" "''u1''"
      "[1, 2, 3]" "\<lambda>u. None" "''u2''" True]
  have "\<exists>st1. download_image (\<lambda>u. Some [1, 2, 3]) ''u1'' ''Sol Ring'' True (Some ''mh3'')
            (Some ''532'') empty_store = (Some ''sol_ring_mh3_532.png'', st1)
        \<and> files st1 ''sol_ring_mh3_532.png'' = Some [1, 2, 3]
        \<and> download_image (\<lambda>u. None) ''u2'' ''Sol Ring'' True (Some ''mh3'') (Some ''532'') st1
            = (Some ''sol_ring_mh3_532.png'', st1)"
    by (simp add: k empty_store_def)
  then obtain st1 where
    a: "download_image (\<lambda>u. Some [1, 2, 3]) ''u1'' ''Sol Ring'' True (Some ''mh3'')
            (Some ''532'') empty_store = (Some ''sol_ring_mh3_532.png'', st1)"
    and b: "download_image (\<lambda>u. None) ''u2'' ''Sol Ring'' True (Some ''mh3'') (Some ''532'') st1
            = (Some ''sol_ring_mh3_532.png'', st1)"
    by blast
  have "st1 = \<lparr>files = [''sol_ring_mh3_532.png'' \<mapsto> [1, 2, 3]], requested = [''u1'']\<rparr>"
    using a by (simp add: download_image_def k empty_store_def Let_def)
  with a b show ?thesis
    by (simp add: download_image_def [of _ _ _ _ None None] k0 empty_store_def Let_def)
qed

section \<open>Facts about sanitizing\<close>

lemma sanitize_filename_map: "sanitize_filename s = map san_chr s"
  by (simp add: sanitize_filename_def replace_chr_def lower_def san_chr_def Let_def)

lemma lower_chr_reserved:
  assumes "special_chr t \<or> t = CHR ''_'' \<or> t = CHR '' ''" and "lower_chr c = t"
  shows "c = t"
proof (cases "is_upper c")
  case False
  with assms(2) show ?thesis by (simp add: lower_chr_def)
next
  case True
  obtain b0 b1 b2 b3 b4 b5 b6 b7 where c: "c = Char b0 b1 b2 b3 b4 b5 b6 b7"
    by (cases c)
  from True assms(2) c have t: "t = Char b0 b1 b2 b3 b4 True b6 b7"
    by (simp add: lower_chr_def)
  from assms(1) t True c show ?thesis
    by (cases b5) (auto simp: special_chr_def is_upper_def)
qed

lemma lower_chr_space: "lower_chr (CHR '' '') = CHR '' ''"
  by (simp add: lower_chr_def is_upper_def)

lemma lower_chr_underscore: "lower_chr (CHR ''_'') = CHR ''_''"
  by (simp add: lower_chr_def is_upper_def)

lemma san_chr_underscore: "san_chr (CHR ''_'') = CHR ''_''"
  by (simp add: san_chr_def lower_chr_underscore special_chr_def)

lemma san_chr_plain:
  assumes "\<not> special_chr c" and "c \<noteq> CHR ''_''"
  shows "san_chr c = (if c = CHR '' '' then CHR ''_'' else lower_chr c)"
proof (cases "c = CHR '' ''")
  case True
  then show ?thesis
    by (simp add: san_chr_def lower_chr_space special_chr_def)
next
  case False
  have "lower_chr c \<noteq> CHR '' ''"
    using False lower_chr_reserved [of "CHR '' ''" c] by auto
  moreover have "\<not> special_chr (lower_chr c)"
    using assms(1) lower_chr_reserved [of "lower_chr c" c] by auto
  ultimately show ?thesis
    using False by (simp add: san_chr_def)
qed

lemma lower_chr_eq_space: "lower_chr x = CHR '' '' \<Longrightarrow> x = CHR '' ''"
  by (rule lower_chr_reserved [of "CHR '' ''"]) simp_all

lemma lower_chr_eq_underscore: "lower_chr x = CHR ''_'' \<Longrightarrow> x = CHR ''_''"
  by (rule lower_chr_reserved [of "CHR ''_''"]) simp_all

lemma san_chr_no_underscore:
  assumes "\<not> special_chr c" and "c \<noteq> CHR ''_''" and "c \<noteq> CHR '' ''"
  shows "san_chr c \<noteq> CHR ''_''"
proof -
  have "san_chr c = lower_chr c"
    using assms by (simp add: san_chr_plain)
  moreover have "lower_chr c \<noteq> CHR ''_''"
    using assms(2) lower_chr_eq_underscore by blast
  ultimately show ?thesis by simp
qed

lemma san_chr_eq_iff:
  assumes "\<not> special_chr c" "c \<noteq> CHR ''_''" "\<not> special_chr d" "d \<noteq> CHR ''_''"
  shows "san_chr c = san_chr d \<longleftrightarrow> lower_chr c = lower_chr d"
proof (cases "c = CHR '' ''")
  case True
  note c = this
  show ?thesis
  proof (cases "d = CHR '' ''")
    case True
    with c show ?thesis by simp
  next
    case False
    have "san_chr d \<noteq> CHR ''_''"
      using assms(3,4) False by (rule san_chr_no_underscore)
    moreover have "san_chr c = CHR ''_''"
      using c assms(1,2) by (simp add: san_chr_plain)
    moreover have "lower_chr d \<noteq> CHR '' ''"
      using False lower_chr_eq_space by blast
    ultimately show ?thesis
      using c by (simp add: lower_chr_space)
  qed
next
  case False
  note c = this
  show ?thesis
  proof (cases "d = CHR '' ''")
    case True
    have "san_chr c \<noteq> CHR ''_''"
      using assms(1,2) c by (rule san_chr_no_underscore)
    moreover have "san_chr d = CHR ''_''"
      using True assms(3,4) by (simp add: san_chr_plain)
    moreover have "lower_chr c \<noteq> CHR '' ''"
      using c lower_chr_eq_space by blast
    ultimately show ?thesis
      using True by (simp add: lower_chr_space)
  next
    case False
    with c assms show ?thesis
      by (simp add: san_chr_plain)
  qed
qed

lemma map_san_chr_eq_iff:
  assumes "plain_name xs" and "plain_name ys"
  shows "map san_chr xs = map san_chr ys \<longleftrightarrow> lower xs = lower ys"
  using assms
proof (induction xs arbitrary: ys)
  case Nil
  then show ?case by (simp add: lower_def)
next
  case (Cons x xs)
  show ?case
  proof (cases ys)
    case Nil
    then show ?thesis by (simp add: lower_def)
  next
    case (Cons y ys')
    from Cons.prems Cons have px: "plain_name xs" and py: "plain_name ys'"
      by (simp_all add: plain_name_def)
    from Cons.prems Cons have "san_chr x = san_chr y \<longleftrightarrow> lower_chr x = lower_chr y"
      by (intro san_chr_eq_iff) (simp_all add: plain_name_def)
    with Cons.IH [OF px py] Cons show ?thesis
      by (simp add: lower_def)
  qed
qed

lemma plain_code_name: "plain_code s \<Longrightarrow> plain_name s"
  by (simp add: plain_code_def plain_name_def)

lemma plain_code_no_underscore:
  assumes "plain_code s"
  shows "CHR ''_'' \<notin> set (map san_chr s)"
proof
  assume "CHR ''_'' \<in> set (map san_chr s)"
  then obtain c where c: "c \<in> set s" and u: "san_chr c = CHR ''_''"
    by (metis (no_types) imageE list.set_map)
  from assms c have "\<not> special_chr c" and "c \<noteq> CHR ''_''" and "c \<noteq> CHR '' ''"
    unfolding plain_code_def by blast+
  then have "san_chr c \<noteq> CHR ''_''"
    by (rule san_chr_no_underscore)
  with u show False by simp
qed

lemma split_first_sep:
  assumes "u \<notin> set a" and "u \<notin> set a'" and "a @ u # y = a' @ u # y'"
  shows "a = a' \<and> y = y'"
  using assms
proof (induction a arbitrary: a')
  case Nil
  then show ?case by (cases a') auto
next
  case (Cons x a)
  then show ?case by (cases a') auto
qed

lemma split_last_sep:
  assumes "u \<notin> set c" and "u \<notin> set c'" and "x @ u # c = x' @ u # c'"
  shows "x = x' \<and> c = c'"
proof -
  from assms(3) have "rev (x @ u # c) = rev (x' @ u # c')"
    by simp
  then have "rev c @ u # rev x = rev c' @ u # rev x'"
    by simp
  from split_first_sep [OF _ _ this] assms(1,2) show ?thesis
    by simp
qed

lemma printing_key_eq_iff:
  assumes "plain_name n1" "plain_code s1" "plain_code c1"
    and "plain_name n2" "plain_code s2" "plain_code c2"
  shows "cache_filename n1 (Some s1) (Some c1) = cache_filename n2 (Some s2) (Some c2)
     \<longleftrightarrow> lower n1 = lower n2 \<and> lower s1 = lower s2 \<and> lower c1 = lower c2"
proof -
  let ?k = "\<lambda>n s c. map san_chr n @ CHR ''_'' # map san_chr s @ CHR ''_'' # map san_chr c"
  have key: "cache_filename n (Some s) (Some c) = ?k n s c @ ''.png''"
    if "plain_code s" and "plain_code c" for n s c
    using that by (simp add: cache_filename_def plain_code_def sanitize_filename_map
        san_chr_underscore)
  have "?k n1 s1 c1 = ?k n2 s2 c2 \<longleftrightarrow>
      map san_chr n1 = map san_chr n2 \<and> map san_chr s1 = map san_chr s2
        \<and> map san_chr c1 = map san_chr c2"
  proof
    assume eq: "?k n1 s1 c1 = ?k n2 s2 c2"
    then have "(map san_chr n1 @ CHR ''_'' # map san_chr s1) @ CHR ''_'' # map san_chr c1
        = (map san_chr n2 @ CHR ''_'' # map san_chr s2) @ CHR ''_'' # map san_chr c2"
      by simp
    from split_last_sep [OF _ _ this] assms(3,6)
    have c: "map san_chr c1 = map san_chr c2"
      and rest: "map san_chr n1 @ CHR ''_'' # map san_chr s1
        = map san_chr n2 @ CHR ''_'' # map san_chr s2"
      using plain_code_no_underscore by blast+
    from split_last_sep [OF _ _ rest] assms(2,5)
    have "map san_chr n1 = map san_chr n2" and "map san_chr s1 = map san_chr s2"
      using plain_code_no_underscore by blast+
    with c show "map san_chr n1 = map san_chr n2 \<and> map san_chr s1 = map san_chr s2
        \<and> map san_chr c1 = map san_chr c2"
      by simp
  next
    assume "map san_chr n1 = map san_chr n2 \<and> map san_chr s1 = map san_chr s2
        \<and> map san_chr c1 = map san_chr c2"
    then show "?k n1 s1 c1 = ?k n2 s2 c2"
      by simp
  qed
  then show ?thesis
    using assms by (simp add: key map_san_chr_eq_iff plain_code_name)
qed

lemma name_key_eq_iff:
  assumes "plain_name n1" and "plain_name n2"
  shows "cache_filename n1 None None = cache_filename n2 None None \<longleftrightarrow> lower n1 = lower n2"
  using assms by (simp add: cache_filename_def sanitize_filename_map map_san_chr_eq_iff)

text \<open>
  C8 (as amended). The key is the sanitized name when the set code or the collector number
  is missing or empty, and the sanitized string name_set_number otherwise. Sanitizing puts
  letters in lower case and turns the space and each of the characters
  \<^verbatim>\<open>< > : " / \ | ? *\<close> into an underscore, so it is not injective and distinct cards
  can share a key. For names without those characters and without underscores, and set
  codes and collector numbers that in addition have no spaces and are not empty, two
  triples map to the same key exactly when they agree up to the case of letters, and so do
  two names without printing. Requests for the same name without printing share one key,
  and a successful fetch stores its body under the key, replacing what was there.
\<close>

theorem cache_key_collisions:
  "(plain_name n1 \<and> plain_code s1 \<and> plain_code c1
      \<and> plain_name n2 \<and> plain_code s2 \<and> plain_code c2 \<longrightarrow>
      (cache_filename n1 (Some s1) (Some c1) = cache_filename n2 (Some s2) (Some c2)
         \<longleftrightarrow> lower n1 = lower n2 \<and> lower s1 = lower s2 \<and> lower c1 = lower c2))
   \<and> (plain_name n1 \<and> plain_name n2 \<longrightarrow>
      (cache_filename n1 None None = cache_filename n2 None None \<longleftrightarrow> lower n1 = lower n2))
   \<and> (\<not> (truthy_str sc \<and> truthy_str cn) \<longrightarrow>
      cache_filename n1 sc cn = cache_filename n1 None None)
   \<and> (net url = Some content \<and> \<not> (use_cache \<and> cache_filename n1 sc cn \<in> dom (files st)) \<longrightarrow>
      files (snd (download_image net url n1 use_cache sc cn st)) (cache_filename n1 sc cn)
        = Some content)"
proof (intro conjI impI)
  assume "plain_name n1 \<and> plain_code s1 \<and> plain_code c1
      \<and> plain_name n2 \<and> plain_code s2 \<and> plain_code c2"
  then show "cache_filename n1 (Some s1) (Some c1) = cache_filename n2 (Some s2) (Some c2)
         \<longleftrightarrow> lower n1 = lower n2 \<and> lower s1 = lower s2 \<and> lower c1 = lower c2"
    by (intro printing_key_eq_iff) simp_all
next
  assume "plain_name n1 \<and> plain_name n2"
  then show "cache_filename n1 None None = cache_filename n2 None None \<longleftrightarrow> lower n1 = lower n2"
    by (intro name_key_eq_iff) simp_all
next
  assume "\<not> (truthy_str sc \<and> truthy_str cn)"
  then show "cache_filename n1 sc cn = cache_filename n1 None None"
    by (auto simp: cache_filename_def truthy_str_def split: option.splits)
next
  assume "net url = Some content \<and> \<not> (use_cache \<and> cache_filename n1 sc cn \<in> dom (files st))"
  then show "files (snd (download_image net url n1 use_cache sc cn st)) (cache_filename n1 sc cn)
        = Some content"
    by (simp add: download_image_miss)
qed

theorem cache_key_collisions_witness:
  "cache_filename ''Sol Ring'' (Some ''mh3'') (Some ''532'')
     \<noteq> cache_filename ''Sol Ring'' (Some ''mh3'') (Some ''533'')
   \<and> cache_filename ''Sol Ring'' None None \<noteq> cache_filename ''Lightning Bolt'' None None
   \<and> cache_filename ''Sol Ring'' (Some ''mh3'') None = cache_filename ''Sol Ring'' None None"
proof -
  have p: "plain_name ''Sol Ring''" "plain_name ''Lightning Bolt''"
    "plain_code ''mh3''" "plain_code ''532''" "plain_code ''533''"
    by (simp_all add: plain_name_def plain_code_def special_chr_def)
  have l: "lower ''532'' \<noteq> lower ''533''" "lower ''Sol Ring'' \<noteq> lower ''Lightning Bolt''"
    by (simp_all add: lower_def lower_chr_def is_upper_def)
  have t: "\<not> (truthy_str (Some ''mh3'') \<and> truthy_str None)"
    by (simp add: truthy_str_def)
  from cache_key_collisions
    [of "''Sol Ring''" "''mh3''" "''532''" "''Sol Ring''" "''mh3''" "''533''"]
    cache_key_collisions
    [of "''Sol Ring''" "''mh3''" "''532''" "''Lightning Bolt''" "''mh3''" "''533''"
      "Some ''mh3''" None]
    p l t
  show ?thesis by blast
qed

text \<open>
  The claim as stated fails: two distinct names share a key, with the same printing and
  without printing, and two distinct triples share a key through the separator.
\<close>

theorem cache_key_collisions_counterexample:
  "''Who/What'' \<noteq> ''Who?What''
   \<and> cache_filename ''Who/What'' (Some ''unh'') (Some ''120'')
       = cache_filename ''Who?What'' (Some ''unh'') (Some ''120'')
   \<and> cache_filename ''Who/What'' None None = cache_filename ''Who?What'' None None
   \<and> cache_filename ''Nix'' (Some ''a_b'') (Some ''1'')
       = cache_filename ''Nix_a'' (Some ''b'') (Some ''1'')"
  by code_simp

section \<open>Facts about the layout loops\<close>

lemma cell_at:
  assumes "r < 3" and "c < 3"
  shows "cell cards (9 * p + 3 * r + c)
     = \<lparr>page_index = p, row = r, col = c, card_img = cards ! (9 * p + 3 * r + c)\<rparr>"
proof -
  let ?x = "3 * r + c"
  have x: "?x < 9"
    using assms by simp
  have i: "9 * p + 3 * r + c = 9 * p + ?x"
    by simp
  have "(9 * p + ?x) div 9 = p"
    using x by simp
  moreover have "(9 * p + ?x) mod 9 = ?x"
    using x by simp
  moreover have "?x div 3 = r"
    using assms(2) by simp
  moreover have "9 * p + ?x = 3 * (3 * p + r) + c"
    by simp
  then have "(9 * p + ?x) mod 3 = c"
    using assms(2) by (simp only: mod_mult_self4 mod_less)
  ultimately show ?thesis
    unfolding i by (simp add: cell_def CARDS_PER_PAGE_def CARDS_PER_ROW_def CARDS_PER_COL_def)
qed

lemma col_loop_inv:
  assumes "placed s = map (cell cards) [0..<card_index s]"
    and "card_index s = min (length cards) (9 * shown s + 3 * r + c)"
    and "r < 3" and "c \<le> 3"
  shows "placed (col_loop cards r [c..<3] s)
       = map (cell cards) [0..<card_index (col_loop cards r [c..<3] s)]
     \<and> card_index (col_loop cards r [c..<3] s) = min (length cards) (9 * shown s + 3 * r + 3)
     \<and> shown (col_loop cards r [c..<3] s) = shown s
     \<and> (unsaved (col_loop cards r [c..<3] s)
          \<longleftrightarrow> unsaved s \<or> card_index s < card_index (col_loop cards r [c..<3] s))"
  using assms
proof (induction "3 - c" arbitrary: c s)
  case 0
  then have "c = 3" by simp
  with 0 show ?case by simp
next
  case (Suc n)
  then have c: "c < 3" and n: "n = 3 - Suc c" by simp_all
  from c have unroll: "[c..<3] = c # [Suc c..<3]"
    by (simp add: upt_conv_Cons)
  show ?case
  proof (cases "card_index s \<ge> length cards")
    case True
    with Suc.prems show ?thesis
      by (simp add: unroll)
  next
    case False
    with Suc.prems have k: "card_index s = 9 * shown s + 3 * r + c"
      by simp
    let ?s1 = "draw_card cards r c s"
    have "cell cards (card_index s)
        = \<lparr>page_index = shown s, row = r, col = c, card_img = cards ! card_index s\<rparr>"
      unfolding k using Suc.prems(3) c by (rule cell_at)
    then have p1: "placed ?s1 = map (cell cards) [0..<card_index ?s1]"
      using Suc.prems(1) by (simp add: draw_card_def)
    have i1: "card_index ?s1 = min (length cards) (9 * shown ?s1 + 3 * r + Suc c)"
      using False k by (simp add: draw_card_def)
    have c1: "Suc c \<le> 3"
      using c by simp
    have e: "col_loop cards r [c..<3] s = col_loop cards r [Suc c..<3] ?s1"
      using False by (simp add: unroll)
    have h1: "shown ?s1 = shown s" and u1: "unsaved ?s1" and x1: "card_index ?s1 = Suc (card_index s)"
      by (simp_all add: draw_card_def)
    from Suc.hyps(1) [OF n p1 i1 Suc.prems(3) c1]
    have a: "placed (col_loop cards r [Suc c..<3] ?s1)
         = map (cell cards) [0..<card_index (col_loop cards r [Suc c..<3] ?s1)]"
      and b: "card_index (col_loop cards r [Suc c..<3] ?s1)
         = min (length cards) (9 * shown ?s1 + 3 * r + 3)"
      and d: "shown (col_loop cards r [Suc c..<3] ?s1) = shown ?s1"
      and f: "unsaved (col_loop cards r [Suc c..<3] ?s1)
         \<longleftrightarrow> unsaved ?s1 \<or> card_index ?s1 < card_index (col_loop cards r [Suc c..<3] ?s1)"
      by simp_all
    have "card_index s < card_index (col_loop cards r [Suc c..<3] ?s1)"
      unfolding b h1 using False k c by simp
    with a b d f h1 u1 show ?thesis
      unfolding e by simp
  qed
qed

lemma row_loop_inv:
  assumes "placed s = map (cell cards) [0..<card_index s]"
    and "card_index s = min (length cards) (9 * shown s + 3 * r)"
    and "r \<le> 3"
  shows "placed (row_loop cards [r..<3] s)
       = map (cell cards) [0..<card_index (row_loop cards [r..<3] s)]
     \<and> card_index (row_loop cards [r..<3] s) = min (length cards) (9 * shown s + 9)
     \<and> shown (row_loop cards [r..<3] s) = shown s
     \<and> (unsaved (row_loop cards [r..<3] s)
          \<longleftrightarrow> unsaved s \<or> card_index s < card_index (row_loop cards [r..<3] s))"
  using assms
proof (induction "3 - r" arbitrary: r s)
  case 0
  then have "r = 3" by simp
  with 0 show ?case by simp
next
  case (Suc n)
  then have r: "r < 3" and n: "n = 3 - Suc r" by simp_all
  from r have unroll: "[r..<3] = r # [Suc r..<3]"
    by (simp add: upt_conv_Cons)
  let ?s1 = "col_loop cards r [0..<3] s"
  from Suc.prems(2) have "card_index s = min (length cards) (9 * shown s + 3 * r + 0)"
    by simp
  from col_loop_inv [OF Suc.prems(1) this r]
  have p1: "placed ?s1 = map (cell cards) [0..<card_index ?s1]"
    and i1: "card_index ?s1 = min (length cards) (9 * shown s + 3 * r + 3)"
    and h1: "shown ?s1 = shown s"
    and u1: "unsaved ?s1 \<longleftrightarrow> unsaved s \<or> card_index s < card_index ?s1"
    by simp_all
  from i1 h1 have i1': "card_index ?s1 = min (length cards) (9 * shown ?s1 + 3 * Suc r)"
    by simp
  have mono: "card_index s \<le> card_index ?s1"
    using Suc.prems(2) i1 by simp
  from Suc.hyps(1) [OF n p1 i1'] r
  have a: "placed (row_loop cards [Suc r..<3] ?s1)
       = map (cell cards) [0..<card_index (row_loop cards [Suc r..<3] ?s1)]"
    and b: "card_index (row_loop cards [Suc r..<3] ?s1) = min (length cards) (9 * shown ?s1 + 9)"
    and c: "shown (row_loop cards [Suc r..<3] ?s1) = shown ?s1"
    and d: "unsaved (row_loop cards [Suc r..<3] ?s1)
          \<longleftrightarrow> unsaved ?s1 \<or> card_index ?s1 < card_index (row_loop cards [Suc r..<3] ?s1)"
    by simp_all
  have e: "row_loop cards [r..<3] s = row_loop cards [Suc r..<3] ?s1"
    by (simp add: unroll CARDS_PER_ROW_def)
  have "card_index s < card_index (row_loop cards [Suc r..<3] ?s1)
      \<longleftrightarrow> card_index s < card_index ?s1
        \<or> card_index ?s1 < card_index (row_loop cards [Suc r..<3] ?s1)"
    unfolding b i1 h1 using Suc.prems(2) r by auto
  with a b c d h1 u1 show ?case
    unfolding e by simp
qed

lemma page_loop_inv:
  assumes "placed s = map (cell cards) [0..<card_index s]"
    and "(card_index s < length cards \<and> card_index s = 9 * shown s \<and> \<not> unsaved s)
       \<or> (card_index s = length cards
           \<and> (cards \<noteq> [] \<longrightarrow> unsaved s \<and> 9 * shown s < length cards
                 \<and> length cards \<le> 9 * shown s + 9))"
  shows "placed (page_loop cards s) = map (cell cards) [0..<length cards]
     \<and> (cards \<noteq> [] \<longrightarrow> unsaved (page_loop cards s)
           \<and> 9 * shown (page_loop cards s) < length cards
           \<and> length cards \<le> 9 * shown (page_loop cards s) + 9)"
  using assms
proof (induction cards s rule: page_loop.induct)
  case (1 cards s)
  show ?case
  proof (cases "card_index s < length cards")
    case False
    with "1.prems" show ?thesis by auto
  next
    case True
    with "1.prems"(2) have k: "card_index s = 9 * shown s" and u: "\<not> unsaved s"
      by auto
    let ?s1 = "row_loop cards [0..<3] s"
    let ?s2 = "if card_index ?s1 < length cards then show_page ?s1 else ?s1"
    from True k have "card_index s = min (length cards) (9 * shown s + 3 * 0)"
      by simp
    from row_loop_inv [OF "1.prems"(1) this]
    have p1: "placed ?s1 = map (cell cards) [0..<card_index ?s1]"
      and i1: "card_index ?s1 = min (length cards) (9 * shown s + 9)"
      and h1: "shown ?s1 = shown s"
      and u1: "unsaved ?s1 \<longleftrightarrow> unsaved s \<or> card_index s < card_index ?s1"
      by simp_all
    from True k i1 have gt: "card_index s < card_index ?s1"
      by simp
    have p2: "placed ?s2 = map (cell cards) [0..<card_index ?s2]"
      using p1 by (simp add: show_page_def)
    have j2: "(card_index ?s2 < length cards \<and> card_index ?s2 = 9 * shown ?s2 \<and> \<not> unsaved ?s2)
       \<or> (card_index ?s2 = length cards
           \<and> (cards \<noteq> [] \<longrightarrow> unsaved ?s2 \<and> 9 * shown ?s2 < length cards
                 \<and> length cards \<le> 9 * shown ?s2 + 9))"
    proof (cases "card_index ?s1 < length cards")
      case True
      then have "?s2 = show_page ?s1"
        by simp
      moreover have "card_index (show_page ?s1) = 9 * shown (show_page ?s1)"
        using True i1 h1 by (simp add: show_page_def)
      moreover have "\<not> unsaved (show_page ?s1)"
        and "card_index (show_page ?s1) < length cards"
        using True by (simp_all add: show_page_def)
      ultimately show ?thesis
        by presburger
    next
      case False
      then have s2: "?s2 = ?s1"
        by simp
      from False i1 have "card_index ?s1 = length cards" and "length cards \<le> 9 * shown s + 9"
        by simp_all
      moreover have "unsaved ?s1"
        using u1 gt by simp
      moreover have "9 * shown ?s1 < length cards"
        using h1 True k by simp
      ultimately show ?thesis
        unfolding s2 h1 by blast
    qed
    have step: "page_loop cards s = page_loop cards ?s2"
      using True by (subst page_loop.simps) (simp add: CARDS_PER_COL_def Let_def)
    have "?s1 = row_loop cards [0..<CARDS_PER_COL] s"
      by (simp add: CARDS_PER_COL_def)
    from "1.IH" [OF True this p2 j2]
    show ?thesis
      unfolding step .
  qed
qed

lemma create_pdf_closed_form:
  "fst (create_pdf cards) = map (cell cards) [0..<length cards]
   \<and> (cards \<noteq> [] \<longrightarrow> snd (create_pdf cards) = (length cards + 8) div 9)"
proof -
  let ?s0 = "\<lparr>card_index = 0, shown = 0, unsaved = False, placed = []\<rparr> :: 'a pdf"
  have "placed ?s0 = map (cell cards) [0..<card_index ?s0]"
    by simp
  moreover have "(card_index ?s0 < length cards \<and> card_index ?s0 = 9 * shown ?s0 \<and> \<not> unsaved ?s0)
       \<or> (card_index ?s0 = length cards
           \<and> (cards \<noteq> [] \<longrightarrow> unsaved ?s0 \<and> 9 * shown ?s0 < length cards
                 \<and> length cards \<le> 9 * shown ?s0 + 9))"
    by (cases cards) simp_all
  ultimately have r: "placed (page_loop cards ?s0) = map (cell cards) [0..<length cards]
     \<and> (cards \<noteq> [] \<longrightarrow> unsaved (page_loop cards ?s0)
           \<and> 9 * shown (page_loop cards ?s0) < length cards
           \<and> length cards \<le> 9 * shown (page_loop cards ?s0) + 9)"
    by (rule page_loop_inv)
  have pages: "Suc p = (n + 8) div 9" if "9 * p < n" and "n \<le> 9 * p + 9" for p n :: nat
  proof -
    have "(n + 8) div 9 = Suc p"
      using that by (intro div_nat_eqI) simp_all
    then show ?thesis by simp
  qed
  from r have "cards \<noteq> [] \<longrightarrow> Suc (shown (page_loop cards ?s0)) = (length cards + 8) div 9"
    using pages by blast
  with r show ?thesis
    by (simp add: create_pdf_def Let_def)
qed

section \<open>The sheet layout: claim C2\<close>

lemma div9_iff: "j div 9 = p \<longleftrightarrow> 9 * p \<le> j \<and> j < 9 * p + (9::nat)"
proof
  assume "j div 9 = p"
  moreover have "9 * (j div 9) \<le> j"
    by simp
  moreover have "j < 9 * (j div 9) + 9"
  proof -
    have "j = 9 * (j div 9) + j mod 9" by simp
    moreover have "j mod 9 < 9" by simp
    ultimately show ?thesis by linarith
  qed
  ultimately show "9 * p \<le> j \<and> j < 9 * p + 9"
    by simp
next
  assume "9 * p \<le> j \<and> j < 9 * p + 9"
  then show "j div 9 = p"
    by (intro div_nat_eqI) simp_all
qed

lemma cell_index: "i = 9 * (i div 9) + 3 * ((i mod 9) div 3) + i mod (3::nat)"
proof -
  have "i mod 9 mod 3 = i mod 3"
    by (simp add: mod_mod_cancel)
  moreover have "i mod 9 = 3 * (i mod 9 div 3) + i mod 9 mod 3"
    by simp
  moreover have "i = 9 * (i div 9) + i mod 9"
    by simp
  ultimately show ?thesis
    by linarith
qed

lemma cell_of_inj: "inj_on (\<lambda>i. cell_of (cell cards i)) A"
proof (rule inj_onI)
  fix i j
  assume "cell_of (cell cards i) = cell_of (cell cards j)"
  then have "i div 9 = j div 9" and "(i mod 9) div 3 = (j mod 9) div 3" and "i mod 3 = j mod 3"
    by (simp_all add: cell_of_def cell_def CARDS_PER_PAGE_def CARDS_PER_ROW_def CARDS_PER_COL_def)
  with cell_index [of i] cell_index [of j] show "i = j"
    by linarith
qed

lemma page_count_upto:
  assumes "9 * p + 9 \<le> i"
  shows "length (filter (\<lambda>j. j div 9 = p) [0..<i]) = (9::nat)"
proof -
  from assms obtain k where k: "i = (9 * p + 9) + k"
    using le_Suc_ex by blast
  have "[0..<i] = [0..<9 * p + 9] @ [9 * p + 9..<i]"
    unfolding k by (rule upt_add_eq_append) simp
  moreover have "[0..<9 * p + 9] = [0..<9 * p] @ [9 * p..<9 * p + 9]"
    by (rule upt_add_eq_append) simp
  moreover have "filter (\<lambda>j. j div 9 = p) [0..<9 * p] = []"
    by (simp add: filter_empty_conv div9_iff)
  moreover have "filter (\<lambda>j. j div 9 = p) [9 * p + 9..<i] = []"
    by (simp add: filter_empty_conv div9_iff)
  moreover have "filter (\<lambda>j. j div 9 = p) [9 * p..<9 * p + 9] = [9 * p..<9 * p + 9]"
    by (simp add: filter_id_conv div9_iff)
  ultimately show ?thesis
    by simp
qed

text \<open>
  C2. For a sequence of N images that is not empty, \<^verbatim>\<open>create_pdf\<close> draws the i-th
  image on page i div 9, in row (i mod 9) div 3 and column i mod 3, in the order of the
  sequence: row-major, rows and columns below 3. No two placements share page, row and
  column. When a placement is on page p + 1, exactly 9 of the placements drawn before it are
  on page p. The document has (N + 9 - 1) div 9 pages, the ceiling of N / 9.
\<close>

theorem layout_row_major:
  assumes "cards \<noteq> []"
  shows "fst (create_pdf cards) = map (cell cards) [0..<length cards]
    \<and> (\<forall>e\<in>set (fst (create_pdf cards)). row e < CARDS_PER_COL \<and> col e < CARDS_PER_ROW)
    \<and> distinct (map cell_of (fst (create_pdf cards)))
    \<and> (\<forall>i<length cards. \<forall>p. page_index (fst (create_pdf cards) ! i) = Suc p \<longrightarrow>
          length (filter (\<lambda>e. page_index e = p) (take i (fst (create_pdf cards))))
            = CARDS_PER_PAGE)
    \<and> snd (create_pdf cards) = (length cards + CARDS_PER_PAGE - 1) div CARDS_PER_PAGE"
proof -
  let ?ps = "fst (create_pdf cards)"
  have ps: "?ps = map (cell cards) [0..<length cards]"
    using create_pdf_closed_form [of cards] by simp
  have bounds: "\<forall>e\<in>set ?ps. row e < CARDS_PER_COL \<and> col e < CARDS_PER_ROW"
    unfolding ps
    by (auto simp: cell_def CARDS_PER_PAGE_def CARDS_PER_ROW_def CARDS_PER_COL_def
        less_mult_imp_div_less)
  have "map cell_of ?ps = map (\<lambda>i. cell_of (cell cards i)) [0..<length cards]"
    unfolding ps by simp
  then have dist: "distinct (map cell_of ?ps)"
    by (simp add: distinct_map cell_of_inj)
  have fill: "length (filter (\<lambda>e. page_index e = p) (take i ?ps)) = CARDS_PER_PAGE"
    if i: "i < length cards" and p: "page_index (?ps ! i) = Suc p" for i p
  proof -
    from i p have "i div 9 = Suc p"
      unfolding ps
      by (simp add: cell_def CARDS_PER_PAGE_def CARDS_PER_ROW_def CARDS_PER_COL_def)
    then have le: "9 * p + 9 \<le> i"
      by (simp add: div9_iff)
    have "take i ?ps = map (cell cards) [0..<i]"
      unfolding ps using i by (simp add: take_map)
    then have "filter (\<lambda>e. page_index e = p) (take i ?ps)
        = map (cell cards) (filter (\<lambda>j. j div 9 = p) [0..<i])"
      by (simp add: filter_map comp_def cell_def CARDS_PER_PAGE_def CARDS_PER_ROW_def
          CARDS_PER_COL_def)
    then show ?thesis
      using page_count_upto [OF le] by (simp add: CARDS_PER_PAGE_def CARDS_PER_ROW_def
          CARDS_PER_COL_def)
  qed
  have pages: "snd (create_pdf cards) = (length cards + CARDS_PER_PAGE - 1) div CARDS_PER_PAGE"
    using create_pdf_closed_form [of cards] assms
    by (simp add: CARDS_PER_PAGE_def CARDS_PER_ROW_def CARDS_PER_COL_def)
  from ps bounds dist fill pages show ?thesis
    by blast
qed

theorem layout_row_major_witness:
  "map cell_of (fst (create_pdf [0 ..< 10]))
     = [(0, 0, 0), (0, 0, 1), (0, 0, 2), (0, 1, 0), (0, 1, 1), (0, 1, 2),
        (0, 2, 0), (0, 2, 1), (0, 2, 2), (1, 0, 0)]
   \<and> snd (create_pdf [0 ..< 10]) = 2"
proof -
  have ne: "[0 ..< 10] \<noteq> ([] :: nat list)"
    by simp
  have l: "length [0 ..< 10] = 10"
    by simp
  have u: "[0 ..< 10] = [0, 1, 2, 3, 4, 5, 6, 7, 8, 9 :: nat]"
    by (simp add: upt_rec)
  from layout_row_major [OF ne]
  have a: "fst (create_pdf [0 ..< 10]) = map (cell [0 ..< 10]) [0 ..< 10]"
    and b: "snd (create_pdf [0 ..< 10]) = (10 + CARDS_PER_PAGE - 1) div CARDS_PER_PAGE"
    unfolding l by blast+
  have "map cell_of (map (cell [0 ..< 10]) [0, 1, 2, 3, 4, 5, 6, 7, 8, 9])
     = [(0, 0, 0), (0, 0, 1), (0, 0, 2), (0, 1, 0), (0, 1, 1), (0, 1, 2),
        (0, 2, 0), (0, 2, 1), (0, 2, 2), (1, 0, 0)]"
    by (simp add: cell_of_def cell_def CARDS_PER_PAGE_def CARDS_PER_ROW_def CARDS_PER_COL_def)
  moreover have "(10 + CARDS_PER_PAGE - 1) div CARDS_PER_PAGE = 2"
    by (simp add: CARDS_PER_PAGE_def CARDS_PER_ROW_def CARDS_PER_COL_def)
  ultimately show ?thesis
    unfolding a b by (simp only: u [symmetric])
qed

section \<open>The image normalizer: claim C1\<close>












section \<open>The pipeline: claims C6 and C7\<close>

















end
